theory Spec2Isabelle
  imports Main "HOL-Library.Word" "HOL-Library.Signed_Division"
begin

unbundle bit_operations_syntax

section \<open>The buddy allocator of kernel/buddy.c\<close>

text \<open>
  The allocator manages one region of physical memory.  Its state is the four globals of
  buddy.c: \<open>nsizes\<close>, \<open>bd_base\<close>, the table \<open>bd_sizes\<close> and the memory that holds the
  bitmaps.  The spinlock is left out: every operation below is one critical section.

  Addresses and C integers are HOL integers.  Division and remainder are C's (truncating:
  \<open>sdiv\<close>, \<open>smod\<close>); a value stored in an \<open>int\<close> variable passes through \<open>to_int\<close>, a
  value converted to \<open>uint64\<close> through \<open>to_uint64\<close>.  The request size of \<open>bd_malloc\<close>
  is a 64-bit word, since the doubling loop of \<open>firstk\<close> wraps around.
\<close>

type_synonym address = int
type_synonym byte = "8 word"

definition to_int :: "int \<Rightarrow> int" where
  "to_int x = (x + 2 ^ 31) mod 2 ^ 32 - 2 ^ 31"

definition to_uint64 :: "int \<Rightarrow> int" where
  "to_uint64 x = x mod 2 ^ 64"

subsection \<open>Constants and macros\<close>

definition LEAF_SIZE :: int where
  "LEAF_SIZE = 16"

definition BLK_SIZE :: "int \<Rightarrow> int" where
  "BLK_SIZE k = 2 ^ nat k * LEAF_SIZE"

definition ROUNDUP :: "int \<Rightarrow> int \<Rightarrow> int" where
  "ROUNDUP n sz = ((n - 1) sdiv sz + 1) * sz"

text \<open>The same macro on \<open>uint64\<close> operands, as \<open>bd_init\<close> uses it on addresses.\<close>

definition ROUNDUP_u64 :: "int \<Rightarrow> int \<Rightarrow> int" where
  "ROUNDUP_u64 n sz = to_uint64 ((to_uint64 (n - 1) div sz + 1) * sz)"

text \<open>
  Modelled from the spec: \<open>struct list\<close> (list.c, not part of the sources) is the head of
  an intrusive doubly-linked list, two pointers; with the two bitmap pointers an
  \<open>Sz_info\<close> takes 32 bytes on the 64-bit target.
\<close>

definition sizeof_Sz_info :: int where
  "sizeof_Sz_info = 32"

subsection \<open>State\<close>

datatype error = Panic string | OutOfBounds

record sz_info =
  free :: "address list"
  alloc :: address
  split :: address

record bd =
  nsizes :: int
  bd_base :: address
  bd_sizes :: "int \<Rightarrow> sz_info"
  mem :: "address \<Rightarrow> byte"

definition MAXSIZE :: "bd \<Rightarrow> int" where
  "MAXSIZE s = nsizes s - 1"

definition HEAP_SIZE :: "bd \<Rightarrow> int" where
  "HEAP_SIZE s = BLK_SIZE (MAXSIZE s)"

definition NBLK :: "bd \<Rightarrow> int \<Rightarrow> int" where
  "NBLK s k = to_int (2 ^ nat (MAXSIZE s - k))"

subsection \<open>Bit vector\<close>

text \<open>
  Bit \<open>index\<close> of the array at \<open>array\<close> lives in the byte at \<open>array + index / 8\<close>
  under the mask \<open>1 << (index % 8)\<close>.  For a negative index C leaves the shift undefined;
  the target's shift instruction then yields a value whose low byte is 0.
\<close>

definition bit_mask :: "int \<Rightarrow> byte" where
  "bit_mask index = (if index smod 8 < 0 then 0 else push_bit (nat (index smod 8)) 1)"

definition bit_isset :: "(address \<Rightarrow> byte) \<Rightarrow> address \<Rightarrow> int \<Rightarrow> bool" where
  "bit_isset m array index =
     (let b = m (array + index sdiv 8); msk = bit_mask index in b AND msk = msk)"

definition bit_set :: "(address \<Rightarrow> byte) \<Rightarrow> address \<Rightarrow> int \<Rightarrow> (address \<Rightarrow> byte)" where
  "bit_set m array index =
     (let b = m (array + index sdiv 8); msk = bit_mask index
      in m(array + index sdiv 8 := b OR msk))"

definition bit_clear :: "(address \<Rightarrow> byte) \<Rightarrow> address \<Rightarrow> int \<Rightarrow> (address \<Rightarrow> byte)" where
  "bit_clear m array index =
     (let b = m (array + index sdiv 8); msk = bit_mask index
      in m(array + index sdiv 8 := b AND NOT msk))"

definition bit_flip :: "(address \<Rightarrow> byte) \<Rightarrow> address \<Rightarrow> int \<Rightarrow> (address \<Rightarrow> byte)" where
  "bit_flip m array index =
     (if bit_isset m array index then bit_clear m array index else bit_set m array index)"

definition memset :: "(address \<Rightarrow> byte) \<Rightarrow> address \<Rightarrow> byte \<Rightarrow> int \<Rightarrow> (address \<Rightarrow> byte)" where
  "memset m p c n = (\<lambda>a. if p \<le> a \<and> a < p + n then c else m a)"

subsection \<open>Free lists\<close>

text \<open>
  Modelled from the spec: the intrusive free list (\<open>lst_init\<close>, \<open>lst_empty\<close>,
  \<open>lst_push\<close>, \<open>lst_pop\<close>, \<open>lst_remove\<close> of list.c, not part of the sources) stores raw
  block addresses.  Push and pop work at the head; \<open>lst_remove\<close> takes a known member out
  of the list that holds it.  \<open>lst_pop\<close> is only called on a list that \<open>lst_empty\<close> has
  just found non-empty.
\<close>

definition lst_init :: "address list" where
  "lst_init = []"

definition lst_empty :: "address list \<Rightarrow> bool" where
  "lst_empty l = (l = [])"

definition lst_push :: "address list \<Rightarrow> address \<Rightarrow> address list" where
  "lst_push l p = p # l"

definition lst_pop :: "address list \<Rightarrow> address \<times> address list" where
  "lst_pop l = (hd l, tl l)"

definition lst_remove :: "bd \<Rightarrow> address \<Rightarrow> bd" where
  "lst_remove s q = s\<lparr>bd_sizes := (\<lambda>k. (bd_sizes s k)\<lparr>free := remove1 q (free (bd_sizes s k))\<rparr>)\<rparr>"

text \<open>Writing one field of \<open>bd_sizes[k]\<close>, or the bitmap memory.\<close>

definition set_free :: "bd \<Rightarrow> int \<Rightarrow> address list \<Rightarrow> bd" where
  "set_free s k l = s\<lparr>bd_sizes := (bd_sizes s)(k := (bd_sizes s k)\<lparr>free := l\<rparr>)\<rparr>"

definition set_alloc :: "bd \<Rightarrow> int \<Rightarrow> address \<Rightarrow> bd" where
  "set_alloc s k p = s\<lparr>bd_sizes := (bd_sizes s)(k := (bd_sizes s k)\<lparr>alloc := p\<rparr>)\<rparr>"

definition set_split :: "bd \<Rightarrow> int \<Rightarrow> address \<Rightarrow> bd" where
  "set_split s k p = s\<lparr>bd_sizes := (bd_sizes s)(k := (bd_sizes s k)\<lparr>split := p\<rparr>)\<rparr>"

definition set_mem :: "bd \<Rightarrow> (address \<Rightarrow> byte) \<Rightarrow> bd" where
  "set_mem s m = s\<lparr>mem := m\<rparr>"

subsection \<open>Address/index translation\<close>

text \<open>\<open>firstk\<close>: the loop doubles a \<open>uint64\<close>; it does not return once \<open>size\<close> has wrapped to 0.\<close>

partial_function (option) firstk_loop :: "int \<Rightarrow> 64 word \<Rightarrow> 64 word \<Rightarrow> int option" where
  "firstk_loop k sz n = (if sz < n then firstk_loop (k + 1) (sz * 2) n else Some k)"

declare firstk_loop.simps [code]

definition firstk :: "64 word \<Rightarrow> int option" where
  "firstk n = firstk_loop 0 16 n"

definition blk_index :: "bd \<Rightarrow> int \<Rightarrow> address \<Rightarrow> int" where
  "blk_index s k p = (let n = to_int (p - bd_base s) in to_int (n sdiv BLK_SIZE k))"

definition addr :: "bd \<Rightarrow> int \<Rightarrow> int \<Rightarrow> address" where
  "addr s k bi = (let n = to_int (bi * BLK_SIZE k) in bd_base s + n)"

definition blk_index_next :: "bd \<Rightarrow> int \<Rightarrow> address \<Rightarrow> int" where
  "blk_index_next s k p =
     (let n = to_int ((p - bd_base s) sdiv BLK_SIZE k)
      in if (p - bd_base s) smod BLK_SIZE k \<noteq> 0 then to_int (n + 1) else n)"

function log2 :: "nat \<Rightarrow> int" where
  "log2 n = (if n > 1 then log2 (n div 2) + 1 else 0)"
  by pat_completeness auto
termination
  by (relation "measure (\<lambda>n. n)") auto

declare log2.simps [simp del]

subsection \<open>Allocation\<close>

text \<open>The scan \<open>for (k = fk; k < nsizes; k++) if (!lst_empty(&bd_sizes[k].free)) break;\<close>\<close>

function find_free :: "bd \<Rightarrow> int \<Rightarrow> int" where
  "find_free s k =
     (if k < nsizes s then (if \<not> lst_empty (free (bd_sizes s k)) then k else find_free s (k + 1))
      else k)"
  by pat_completeness auto
termination
  by (relation "measure (\<lambda>(s, k). nat (nsizes s - k))") auto

declare find_free.simps [simp del]

text \<open>The splitting loop \<open>for (; k > fk; k--)\<close> of \<open>bd_malloc\<close>.\<close>

function split_blocks :: "bd \<Rightarrow> int \<Rightarrow> int \<Rightarrow> address \<Rightarrow> bd" where
  "split_blocks s fk k p =
     (if k > fk then
        let q = p + BLK_SIZE (k - 1);
            s1 = set_mem s (bit_set (mem s) (split (bd_sizes s k)) (blk_index s k p));
            s2 = set_mem s1 (bit_flip (mem s1) (alloc (bd_sizes s1 (k - 1)))
                               (blk_index s1 (k - 1) p sdiv 2));
            s3 = set_free s2 (k - 1) (lst_push (free (bd_sizes s2 (k - 1))) q)
        in split_blocks s3 fk (k - 1) p
      else s)"
  by pat_completeness auto
termination
  by (relation "measure (\<lambda>(s, fk, k, p). nat (k - fk))") auto

declare split_blocks.simps [simp del]

text \<open>
  \<open>bd_malloc\<close> once \<open>firstk\<close> has returned \<open>fk\<close>: \<open>None\<close> is the null pointer of the
  out-of-memory return.
\<close>

definition bd_malloc_class :: "bd \<Rightarrow> int \<Rightarrow> address option \<times> bd" where
  "bd_malloc_class s fk =
     (let k = find_free s fk
      in if k \<ge> nsizes s then (None, s)
         else
           let (p, rest) = lst_pop (free (bd_sizes s k));
               s1 = set_free s k rest;
               s2 = set_mem s1 (bit_flip (mem s1) (alloc (bd_sizes s1 k)) (blk_index s1 k p sdiv 2))
           in (Some p, split_blocks s2 fk k p))"

text \<open>The outer \<open>None\<close>: \<open>bd_malloc\<close> does not return, because \<open>firstk\<close> does not.\<close>

definition bd_malloc :: "bd \<Rightarrow> 64 word \<Rightarrow> (address option \<times> bd) option" where
  "bd_malloc s nbytes = map_option (bd_malloc_class s) (firstk nbytes)"

subsection \<open>Deallocation\<close>

text \<open>
  \<open>size\<close> reads \<open>bd_sizes[k + 1]\<close> for every \<open>k < nsizes\<close>; at \<open>k = nsizes - 1\<close> that
  is one entry past the table.  What C reads there is not defined by the table, so the
  model stops with \<open>OutOfBounds\<close>; the scan gets that far only when no class below
  \<open>nsizes - 1\<close> has the split bit of the block set.
\<close>

function size_loop :: "bd \<Rightarrow> int \<Rightarrow> address \<Rightarrow> error + int" where
  "size_loop s k p =
     (if k < nsizes s then
        (if k + 1 \<ge> nsizes s then Inl OutOfBounds
         else if bit_isset (mem s) (split (bd_sizes s (k + 1))) (blk_index s (k + 1) p) then Inr k
         else size_loop s (k + 1) p)
      else Inr 0)"
  by pat_completeness auto
termination
  by (relation "measure (\<lambda>(s, k, p). nat (nsizes s - k))") auto

declare size_loop.simps [simp del]

definition size_blk :: "bd \<Rightarrow> address \<Rightarrow> error + int" where
  "size_blk s p = size_loop s 0 p"

text \<open>The loop \<open>for (k = size(p); k < MAXSIZE; k++)\<close> of \<open>bd_free\<close>, with its \<open>break\<close>.\<close>

function free_loop :: "bd \<Rightarrow> int \<Rightarrow> address \<Rightarrow> bd \<times> int \<times> address" where
  "free_loop s k p =
     (if k < MAXSIZE s then
        let bi = blk_index s k p;
            buddy = (if bi smod 2 = 0 then to_int (bi + 1) else to_int (bi - 1));
            s1 = set_mem s (bit_set (mem s) (alloc (bd_sizes s k)) (bi sdiv 2))
        in if bit_isset (mem s1) (alloc (bd_sizes s1 k)) (bi sdiv 2) then (s1, k, p)
           else
             let q = addr s1 k buddy;
                 s2 = lst_remove s1 q;
                 p' = (if buddy smod 2 = 0 then q else p);
                 s3 = set_mem s2 (bit_clear (mem s2) (split (bd_sizes s2 (k + 1)))
                                    (blk_index s2 (k + 1) p'))
             in free_loop s3 (k + 1) p'
      else (s, k, p))"
  by pat_completeness auto
termination
  by (relation "measure (\<lambda>(s, k, p). nat (MAXSIZE s - k))")
     (auto simp: MAXSIZE_def set_mem_def lst_remove_def)

declare free_loop.simps [simp del]

definition bd_free :: "bd \<Rightarrow> address \<Rightarrow> error + bd" where
  "bd_free s p =
     (case size_blk s p of
        Inl e \<Rightarrow> Inl e
      | Inr k0 \<Rightarrow>
          let (s1, k, p') = free_loop s k0 p
          in Inr (set_free s1 k (lst_push (free (bd_sizes s1 k)) p')))"

subsection \<open>Range marking\<close>

text \<open>The inner loop \<open>for (; bi < bj; bi++)\<close> of \<open>bd_mark\<close>.\<close>

function mark_blocks :: "bd \<Rightarrow> int \<Rightarrow> int \<Rightarrow> int \<Rightarrow> bd" where
  "mark_blocks s k bi bj =
     (if bi < bj then
        let s1 = (if k > 0 then set_mem s (bit_set (mem s) (split (bd_sizes s k)) bi) else s);
            s2 = set_mem s1 (bit_flip (mem s1) (alloc (bd_sizes s1 k)) (bi sdiv 2))
        in mark_blocks s2 k (bi + 1) bj
      else s)"
  by pat_completeness auto
termination
  by (relation "measure (\<lambda>(s, k, bi, bj). nat (bj - bi))") auto

declare mark_blocks.simps [simp del]

definition mark_class :: "bd \<Rightarrow> int \<Rightarrow> address \<Rightarrow> address \<Rightarrow> bool \<Rightarrow> int \<Rightarrow> bd \<times> int" where
  "mark_class s k start stop is_left free_ret =
     (let bi = blk_index s k start;
          bj = blk_index_next s k stop;
          push_left = (k < nsizes s - 2 \<and> is_left \<and> bj smod 2 \<noteq> 0);
          s1 = (if push_left then set_free s k (lst_push (free (bd_sizes s k)) (addr s k bj))
                else s);
          free_ret1 = (if push_left then to_int (free_ret + BLK_SIZE k) else free_ret);
          push_right = (k < nsizes s - 2 \<and> \<not> is_left \<and> bi smod 2 \<noteq> 0);
          s2 = (if push_right
                then set_free s1 k (lst_push (free (bd_sizes s1 k)) (addr s1 k (bi - 1)))
                else s1);
          free_ret2 = (if push_right then to_int (free_ret1 + BLK_SIZE k) else free_ret1);
          s3 = (if bi smod 2 \<noteq> 0
                then set_mem s2 (bit_set (mem s2) (alloc (bd_sizes s2 k)) (bi sdiv 2)) else s2);
          s4 = (if bj smod 2 \<noteq> 0
                then set_mem s3 (bit_set (mem s3) (alloc (bd_sizes s3 k)) (bj sdiv 2)) else s3)
      in (mark_blocks s4 k bi bj, free_ret2))"

lemma nsizes_set_mem [simp]: "nsizes (set_mem s m) = nsizes s"
  by (simp add: set_mem_def)

lemma nsizes_set_free [simp]: "nsizes (set_free s k l) = nsizes s"
  by (simp add: set_free_def)

lemma nsizes_mark_blocks [simp]: "nsizes (mark_blocks s k bi bj) = nsizes s"
  by (induction s k bi bj rule: mark_blocks.induct) (subst mark_blocks.simps, simp add: Let_def)


lemma nsizes_mark_class [simp]:
  "nsizes (fst (mark_class s k start stop is_left free_ret)) = nsizes s"
  by (simp add: mark_class_def Let_def)

function mark_loop :: "bd \<Rightarrow> int \<Rightarrow> address \<Rightarrow> address \<Rightarrow> bool \<Rightarrow> int \<Rightarrow> int \<times> bd" where
  "mark_loop s k start stop is_left free_ret =
     (if k < nsizes s then
        let (s', free_ret') = mark_class s k start stop is_left free_ret
        in mark_loop s' (k + 1) start stop is_left free_ret'
      else (free_ret, s))"
  by pat_completeness auto
termination
proof (relation "measure (\<lambda>(s, k, start, stop, is_left, free_ret). nat (nsizes s - k))", goal_cases)
  case 1
  show ?case by simp
next
  case (2 s k start stop is_left free_ret x s' free_ret')
  have "nsizes (fst (mark_class s k start stop is_left free_ret)) = nsizes s"
    by simp
  moreover have "fst (mark_class s k start stop is_left free_ret) = s'"
    using 2(2,3) by (metis fst_conv)
  ultimately show ?case using 2(1) by simp
qed

declare mark_loop.simps [simp del]

definition bd_mark :: "bd \<Rightarrow> address \<Rightarrow> address \<Rightarrow> bool \<Rightarrow> error + int \<times> bd" where
  "bd_mark s start stop is_left =
     (if to_uint64 start mod LEAF_SIZE \<noteq> 0 \<or> to_uint64 stop mod LEAF_SIZE \<noteq> 0
      then Inl (Panic ''bd_mark'')
      else Inr (mark_loop s 0 start stop is_left 0))"


subsection \<open>Initialization\<close>

record MARK_META =
  meta :: int
  free_m :: int

lemma nsizes_set_alloc [simp]: "nsizes (set_alloc s k p) = nsizes s"
  by (simp add: set_alloc_def)

lemma nsizes_set_split [simp]: "nsizes (set_split s k p) = nsizes s"
  by (simp add: set_split_def)

text \<open>The first loop of \<open>bd_init\<close>: the free list and the \<open>alloc\<close> array of each class.\<close>

function init_alloc :: "bd \<Rightarrow> int \<Rightarrow> address \<Rightarrow> bd \<times> address" where
  "init_alloc s k p =
     (if k < nsizes s then
        let s1 = set_free s k lst_init;
            sz = to_int (to_uint64 (ROUNDUP (NBLK s1 k) 8) div 16);
            s2 = set_alloc s1 k p;
            s3 = set_mem s2 (memset (mem s2) (alloc (bd_sizes s2 k)) 0 (to_uint64 sz))
        in init_alloc s3 (k + 1) (p + sz)
      else (s, p))"
  by pat_completeness auto
termination
  by (relation "measure (\<lambda>(s, k, p). nat (nsizes s - k))") auto

declare init_alloc.simps [simp del]

text \<open>The second loop: the \<open>split\<close> array of each class but class 0.\<close>

function init_split :: "bd \<Rightarrow> int \<Rightarrow> address \<Rightarrow> bd \<times> address" where
  "init_split s k p =
     (if k < nsizes s then
        let sz = to_int (to_uint64 (ROUNDUP (NBLK s k) 8) div 8);
            s1 = set_split s k p;
            s2 = set_mem s1 (memset (mem s1) (split (bd_sizes s1 k)) 0 (to_uint64 sz))
        in init_split s2 (k + 1) (p + sz)
      else (s, p))"
  by pat_completeness auto
termination
  by (relation "measure (\<lambda>(s, k, p). nat (nsizes s - k))") auto

declare init_split.simps [simp del]

definition bd_mark_data_structures :: "bd \<Rightarrow> address \<Rightarrow> error + MARK_META \<times> bd" where
  "bd_mark_data_structures s p =
     (let m = to_int (p - bd_base s)
      in case bd_mark s (bd_base s) p True of
           Inl e \<Rightarrow> Inl e
         | Inr (fr, s') \<Rightarrow> Inr (\<lparr>meta = m, free_m = fr\<rparr>, s'))"

definition bd_mark_unavailable :: "bd \<Rightarrow> address \<Rightarrow> address \<Rightarrow> error + MARK_META \<times> bd" where
  "bd_mark_unavailable s endp left =
     (let m0 = to_int (BLK_SIZE (MAXSIZE s) - (endp - bd_base s));
          m = (if m0 > 0 then to_int (ROUNDUP m0 LEAF_SIZE) else m0);
          bd_end = bd_base s + BLK_SIZE (MAXSIZE s) - m
      in case bd_mark s bd_end (bd_base s + BLK_SIZE (MAXSIZE s)) False of
           Inl e \<Rightarrow> Inl e
         | Inr (fr, s') \<Rightarrow> Inr (\<lparr>meta = m, free_m = fr\<rparr>, s'))"

text \<open>
  \<open>bd_init\<close> in three steps.  First the layout: \<open>nsizes\<close>, the table and the bitmaps,
  up to the rounded end \<open>p\<close> of the metadata.  The argument \<open>m\<close> is the content of memory
  before the call.  \<open>memset\<close> zeroes the table, so every entry starts with null pointers.
\<close>

definition bd_init_layout :: "address \<Rightarrow> address \<Rightarrow> (address \<Rightarrow> byte) \<Rightarrow> bd \<times> address" where
  "bd_init_layout base endp m =
     (let p = ROUNDUP_u64 (to_uint64 base) LEAF_SIZE;
          n = log2 (nat (to_uint64 ((endp - p) sdiv LEAF_SIZE))) + 1;
          n' = (if endp - p > BLK_SIZE (n - 1) then to_int (n + 1) else n);
          s0 = \<lparr>nsizes = n', bd_base = p,
                bd_sizes = (\<lambda>k. \<lparr>free = [], alloc = 0, split = 0\<rparr>), mem = m\<rparr>;
          p1 = p + sizeof_Sz_info * nsizes s0;
          (s1, p2) = init_alloc s0 0 p1;
          (s2, p3) = init_split s1 1 p2
      in (s2, ROUNDUP_u64 (to_uint64 p3) LEAF_SIZE))"

text \<open>Then the two markings, which give the state and the two \<open>MARK_META\<close> records.\<close>

definition bd_init_mark :: "address \<Rightarrow> address \<Rightarrow> (address \<Rightarrow> byte) \<Rightarrow> error + bd \<times> MARK_META \<times> MARK_META" where
  "bd_init_mark base endp m =
     (let (s, p) = bd_init_layout base endp m
      in case bd_mark_data_structures s p of
           Inl e \<Rightarrow> Inl e
         | Inr (m_left, s') \<Rightarrow>
             (case bd_mark_unavailable s' endp p of
                Inl e \<Rightarrow> Inl e
              | Inr (m_right, s'') \<Rightarrow> Inr (s'', m_left, m_right)))"

text \<open>And the final check of the accounting.\<close>

definition bd_init :: "address \<Rightarrow> address \<Rightarrow> (address \<Rightarrow> byte) \<Rightarrow> error + bd" where
  "bd_init base endp m =
     (case bd_init_mark base endp m of
        Inl e \<Rightarrow> Inl e
      | Inr (s, m_left, m_right) \<Rightarrow>
          let fr = to_int (free_m m_left + free_m m_right)
          in if fr \<noteq> BLK_SIZE (MAXSIZE s) - meta m_left - meta m_right
             then Inl (Panic ''bd_init: free mem'')
             else Inr s)"

subsection \<open>Observations on a state\<close>

text \<open>The bytes on the free lists: every entry of the list of class \<open>k\<close> counts \<open>BLK_SIZE k\<close>.\<close>

definition free_bytes :: "bd \<Rightarrow> int" where
  "free_bytes s = (\<Sum>k = 0..<nsizes s. int (length (free (bd_sizes s k))) * BLK_SIZE k)"

text \<open>
  A small region for concrete runs: 1008 bytes at address 0 in zeroed memory.  The heap is
  rounded to 1024 bytes in 7 classes; the metadata takes the first 256 bytes and the last
  16 are unavailable.
\<close>

definition heap_1008 :: bd where
  "heap_1008 = projr (bd_init 0 1008 (\<lambda>_. 0))"

section \<open>Properties\<close>

subsection \<open>Record and state updates\<close>

lemma free_set_free [simp]:
  "free (bd_sizes (set_free s k l) j) = (if j = k then l else free (bd_sizes s j))"
  by (simp add: set_free_def)

lemma free_set_mem [simp]: "free (bd_sizes (set_mem s m) j) = free (bd_sizes s j)"
  by (simp add: set_mem_def)

lemma bd_sizes_set_mem [simp]: "bd_sizes (set_mem s m) = bd_sizes s"
  by (simp add: set_mem_def)

lemma mem_set_mem [simp]: "mem (set_mem s m) = m"
  by (simp add: set_mem_def)

lemma mem_set_free [simp]: "mem (set_free s k l) = mem s"
  by (simp add: set_free_def)

lemma bd_base_set_mem [simp]: "bd_base (set_mem s m) = bd_base s"
  by (simp add: set_mem_def)

lemma bd_base_set_free [simp]: "bd_base (set_free s k l) = bd_base s"
  by (simp add: set_free_def)

lemma alloc_set_free [simp]: "alloc (bd_sizes (set_free s k l) j) = alloc (bd_sizes s j)"
  by (simp add: set_free_def)

lemma split_set_free [simp]: "split (bd_sizes (set_free s k l) j) = split (bd_sizes s j)"
  by (simp add: set_free_def)

lemma free_bytes_set_mem [simp]: "free_bytes (set_mem s m) = free_bytes s"
  by (simp add: free_bytes_def)

lemma free_bytes_set_free:
  assumes "0 \<le> k" "k < nsizes s"
  shows "free_bytes (set_free s k l) =
         free_bytes s + (int (length l) - int (length (free (bd_sizes s k)))) * BLK_SIZE k"
proof -
  let ?f = "\<lambda>s j. int (length (free (bd_sizes s j))) * BLK_SIZE j"
  have k: "k \<in> {0..<nsizes s}" using assms by simp
  have "free_bytes (set_free s k l) = ?f (set_free s k l) k + sum (?f (set_free s k l)) ({0..<nsizes s} - {k})"
    unfolding free_bytes_def using k by (simp add: sum.remove)
  also have "sum (?f (set_free s k l)) ({0..<nsizes s} - {k}) = sum (?f s) ({0..<nsizes s} - {k})"
    by (rule sum.cong) auto
  also have "\<dots> = free_bytes s - ?f s k"
    unfolding free_bytes_def using k by (simp add: sum.remove)
  finally show ?thesis by (simp add: algebra_simps)
qed

lemma bd_init_1008: "bd_init 0 1008 (\<lambda>_. 0) = Inr heap_1008"
proof -
  have "\<not> isl (bd_init 0 1008 (\<lambda>_. 0))" by code_simp
  then show ?thesis by (simp add: heap_1008_def)
qed

subsection \<open>Class selection: \<open>firstk\<close>\<close>

lemma firstk_loop_zero_Some:
  assumes "firstk_loop k sz n = Some y"
  shows "sz = 0 \<longrightarrow> n = 0"
proof (rule firstk_loop.raw_induct [where P = "\<lambda>k sz n y. sz = 0 \<longrightarrow> n = 0", OF _ assms])
  fix f :: "int \<Rightarrow> 64 word \<Rightarrow> 64 word \<Rightarrow> int option" and k' sz' n' y'
  assume IH: "\<And>k sz n y. f k sz n = Some y \<Longrightarrow> sz = 0 \<longrightarrow> n = 0"
    and eq: "(if sz' < n' then f (k' + 1) (sz' * 2) n' else Some k') = Some y'"
  show "sz' = 0 \<longrightarrow> n' = 0"
  proof (intro impI, rule ccontr)
    assume z: "sz' = 0" and nz: "n' \<noteq> 0"
    then have "sz' < n'" by (simp add: word_neq_0_conv)
    with eq z have "f (k' + 1) 0 n' = Some y'" by simp
    from IH [OF this] nz show False by simp
  qed
qed

lemma firstk_loop_zero: "n \<noteq> 0 \<Longrightarrow> firstk_loop k 0 n = None"
  using firstk_loop_zero_Some [of k 0 n] by (cases "firstk_loop k 0 n") auto

lemma unat_pow2_64: "unat ((2::64 word) ^ i) = (if i < 64 then 2 ^ i else 0)"
proof -
  have "(2::64 word) ^ i = of_nat (2 ^ i)" by simp
  then have "unat ((2::64 word) ^ i) = take_bit 64 ((2::nat) ^ i)"
    by (simp only: unsigned_of_nat) simp
  then show ?thesis by (simp add: take_bit_of_exp)
qed

lemma firstk_loop_unroll:
  "(\<forall>i<j. (2::nat) ^ (4 + i) < unat n) \<Longrightarrow>
   firstk_loop k 16 n = firstk_loop (k + int j) (2 ^ (4 + j)) n"
proof (induction j)
  case 0
  show ?case by simp
next
  case (Suc j)
  then have lt: "(2::nat) ^ (4 + j) < unat n" by simp
  have "unat ((2::64 word) ^ (4 + j)) \<le> 2 ^ (4 + j)"
    by (simp add: unat_pow2_64)
  with lt have "(2::64 word) ^ (4 + j) < n"
    by (simp add: word_less_nat_alt)
  then have "firstk_loop (k + int j) (2 ^ (4 + j)) n
           = firstk_loop (k + int j + 1) (2 ^ (4 + j) * 2) n"
    by (subst firstk_loop.simps) simp
  moreover have "(2::64 word) ^ (4 + j) * 2 = 2 ^ (4 + Suc j)" by (simp add: power_add)
  moreover have "k + int j + 1 = k + int (Suc j)" by simp
  ultimately show ?case using Suc by (simp only:) simp
qed

text \<open>For a request of at most \<open>2 ^ 63\<close> bytes \<open>firstk\<close> returns the least class that fits.\<close>

lemma firstk_least:
  assumes "unat n \<le> 2 ^ 63"
  shows "\<exists>j\<le>59. firstk n = Some (int j) \<and> unat n \<le> 2 ^ (4 + j)
           \<and> (\<forall>i<j. (2::nat) ^ (4 + i) < unat n)"
proof -
  define j where "j = (LEAST j. unat n \<le> 2 ^ (4 + j))"
  have ex: "unat n \<le> 2 ^ (4 + (59::nat))" using assms by simp
  have fit: "unat n \<le> 2 ^ (4 + j)"
    unfolding j_def using ex by (rule LeastI)
  have le: "j \<le> 59"
    unfolding j_def using ex by (rule Least_le)
  have below: "\<forall>i<j. (2::nat) ^ (4 + i) < unat n"
    unfolding j_def using not_less_Least by (metis not_le)
  have "firstk n = firstk_loop (int j) (2 ^ (4 + j)) n"
    using firstk_loop_unroll [OF below, of 0] by (simp add: firstk_def)
  moreover have "\<not> (2::64 word) ^ (4 + j) < n"
    using fit le by (simp add: word_less_nat_alt unat_pow2_64)
  ultimately have "firstk n = Some (int j)"
    by (subst (asm) firstk_loop.simps) simp
  with fit le below show ?thesis by blast
qed

text \<open>For a larger request the doubled size wraps to 0 and the loop never ends.\<close>

lemma firstk_diverges:
  assumes "2 ^ 63 < unat n"
  shows "firstk n = None"
proof -
  have "\<forall>i<60. (2::nat) ^ (4 + i) < unat n"
  proof (intro allI impI)
    fix i :: nat assume "i < 60"
    then have "(2::nat) ^ (4 + i) \<le> 2 ^ 63"
      by (intro power_increasing) simp_all
    with assms show "(2::nat) ^ (4 + i) < unat n" by simp
  qed
  from firstk_loop_unroll [OF this, of 0]
  have "firstk n = firstk_loop 60 (2 ^ (4 + 60)) n"
    by (simp only: firstk_def) simp
  moreover have "(2::64 word) ^ (4 + 60) = 0"
    by (rule iffD2 [OF exp_eq_zero_iff]) simp
  ultimately have "firstk n = firstk_loop 60 0 n"
    by (simp only:)
  moreover have "n \<noteq> 0" using assms by auto
  ultimately show ?thesis by (simp add: firstk_loop_zero)
qed

subsection \<open>Allocation\<close>

lemma find_free_step:
  "find_free s k = (if k < nsizes s \<and> lst_empty (free (bd_sizes s k)) then find_free s (k + 1) else k)"
  by (subst find_free.simps) simp

lemma find_free_ge: "k \<le> find_free s k"
proof (induction s k rule: find_free.induct)
  case (1 s k)
  then show ?case by (subst find_free_step) (simp, linarith)
qed

lemma find_free_nonempty:
  "find_free s k < nsizes s \<Longrightarrow> free (bd_sizes s (find_free s k)) \<noteq> []"
proof (induction s k rule: find_free.induct)
  case (1 s k)
  show ?case
  proof (cases "k < nsizes s \<and> lst_empty (free (bd_sizes s k))")
    case True
    then have eq: "find_free s k = find_free s (k + 1)"
      by (subst find_free.simps) simp
    with 1 True show ?thesis by simp
  next
    case False
    then have "find_free s k = k"
      by (subst find_free.simps) auto
    with 1(2) False show ?thesis by (auto simp: lst_empty_def)
  qed
qed

lemma find_free_skips:
  "k \<le> j \<Longrightarrow> j < find_free s k \<Longrightarrow> j < nsizes s \<and> free (bd_sizes s j) = []"
proof (induction s k rule: find_free.induct)
  case (1 s k)
  show ?case
  proof (cases "k < nsizes s \<and> lst_empty (free (bd_sizes s k))")
    case True
    then have eq: "find_free s k = find_free s (k + 1)"
      by (subst find_free.simps) simp
    show ?thesis
    proof (cases "j = k")
      case True
      with \<open>k < nsizes s \<and> lst_empty (free (bd_sizes s k))\<close> show ?thesis
        by (simp add: lst_empty_def)
    next
      case False
      with 1(2) have "k + 1 \<le> j" by simp
      with 1(1) [of] True 1(3) eq show ?thesis by simp
    qed
  next
    case False
    then have "find_free s k = k"
      by (subst find_free.simps) auto
    with 1(2,3) show ?thesis by simp
  qed
qed

lemma find_free_null_iff:
  "nsizes s \<le> find_free s k \<longleftrightarrow> (\<forall>j. k \<le> j \<and> j < nsizes s \<longrightarrow> free (bd_sizes s j) = [])"
proof
  assume "nsizes s \<le> find_free s k"
  then show "\<forall>j. k \<le> j \<and> j < nsizes s \<longrightarrow> free (bd_sizes s j) = []"
    using find_free_skips [of k _ s] by auto
next
  assume a: "\<forall>j. k \<le> j \<and> j < nsizes s \<longrightarrow> free (bd_sizes s j) = []"
  show "nsizes s \<le> find_free s k"
  proof (rule ccontr)
    assume "\<not> nsizes s \<le> find_free s k"
    then have lt: "find_free s k < nsizes s" by simp
    from find_free_nonempty [OF lt] a lt find_free_ge [of k s] show False by auto
  qed
qed


lemma BLK_SIZE_pos [simp]: "0 < BLK_SIZE k"
  by (simp add: BLK_SIZE_def LEAF_SIZE_def)

lemma BLK_SIZE_Suc: "0 < k \<Longrightarrow> BLK_SIZE k = 2 * BLK_SIZE (k - 1)"
proof -
  assume "0 < k"
  then have "nat k = Suc (nat (k - 1))" by simp
  then show ?thesis by (simp add: BLK_SIZE_def)
qed

lemma split_blocks_step:
  "split_blocks s fk k p =
     (if k > fk then
        let q = p + BLK_SIZE (k - 1);
            s1 = set_mem s (bit_set (mem s) (split (bd_sizes s k)) (blk_index s k p));
            s2 = set_mem s1 (bit_flip (mem s1) (alloc (bd_sizes s1 (k - 1)))
                               (blk_index s1 (k - 1) p sdiv 2));
            s3 = set_free s2 (k - 1) (lst_push (free (bd_sizes s2 (k - 1))) q)
        in split_blocks s3 fk (k - 1) p
      else s)"
  by (subst split_blocks.simps) simp

lemma blk_index_set_mem [simp]: "blk_index (set_mem s m) k p = blk_index s k p"
  by (simp add: blk_index_def)

lemma blk_index_set_free [simp]: "blk_index (set_free s j l) k p = blk_index s k p"
  by (simp add: blk_index_def)

lemma nsizes_split_blocks [simp]: "nsizes (split_blocks s fk k p) = nsizes s"
  by (induction s fk k p rule: split_blocks.induct)
     (subst split_blocks_step, simp add: Let_def)

lemma bd_base_split_blocks [simp]: "bd_base (split_blocks s fk k p) = bd_base s"
  by (induction s fk k p rule: split_blocks.induct)
     (subst split_blocks_step, simp add: Let_def)

lemma alloc_split_blocks [simp]:
  "alloc (bd_sizes (split_blocks s fk k p) j) = alloc (bd_sizes s j)"
  by (induction s fk k p rule: split_blocks.induct)
     (subst split_blocks_step, simp add: Let_def)

lemma split_split_blocks [simp]:
  "split (bd_sizes (split_blocks s fk k p) j) = split (bd_sizes s j)"
  by (induction s fk k p rule: split_blocks.induct)
     (subst split_blocks_step, simp add: Let_def)

text \<open>Splitting from class \<open>k\<close> down to \<open>fk\<close> pushes the upper half at every class between.\<close>

lemma free_split_blocks:
  "free (bd_sizes (split_blocks s fk k p) j) =
     (if fk \<le> j \<and> j < k then (p + BLK_SIZE j) # free (bd_sizes s j) else free (bd_sizes s j))"
proof (induction s fk k p rule: split_blocks.induct)
  case (1 s fk k p)
  show ?case
  proof (cases "k > fk")
    case True
    with 1 show ?thesis
      by (subst split_blocks_step) (auto simp: Let_def lst_push_def)
  next
    case False
    then show ?thesis by (subst split_blocks_step) simp
  qed
qed

lemma free_bytes_split_blocks:
  "0 \<le> fk \<Longrightarrow> fk \<le> k \<Longrightarrow> k < nsizes s \<Longrightarrow>
   free_bytes (split_blocks s fk k p) = free_bytes s + BLK_SIZE k - BLK_SIZE fk"
proof (induction s fk k p rule: split_blocks.induct)
  case (1 s fk k p)
  show ?case
  proof (cases "k > fk")
    case True
    let ?s2 = "set_mem (set_mem s (bit_set (mem s) (split (bd_sizes s k)) (blk_index s k p)))
                 (bit_flip (bit_set (mem s) (split (bd_sizes s k)) (blk_index s k p))
                    (alloc (bd_sizes s (k - 1))) (blk_index s (k - 1) p sdiv 2))"
    let ?s3 = "set_free ?s2 (k - 1) (lst_push (free (bd_sizes ?s2 (k - 1))) (p + BLK_SIZE (k - 1)))"
    have step: "split_blocks s fk k p = split_blocks ?s3 fk (k - 1) p"
      using True by (subst split_blocks_step) (simp add: Let_def)
    have "free_bytes ?s3 = free_bytes s + BLK_SIZE (k - 1)"
      using 1(2,3,4) True by (simp add: free_bytes_set_free lst_push_def)
    moreover have "free_bytes (split_blocks ?s3 fk (k - 1) p)
        = free_bytes ?s3 + BLK_SIZE (k - 1) - BLK_SIZE fk"
      using 1(1) [OF True refl refl refl refl] 1(2,3,4) True by simp
    moreover have "BLK_SIZE k = 2 * BLK_SIZE (k - 1)"
      using 1(2) True by (intro BLK_SIZE_Suc) simp
    ultimately show ?thesis using step by simp
  next
    case False
    with 1(3) have "k = fk" by simp
    then show ?thesis by (subst split_blocks_step) simp
  qed
qed

text \<open>The last bitmap write of a split is the flip of the pair bit at class \<open>fk\<close>.\<close>

lemma mem_split_blocks:
  "fk < k \<Longrightarrow>
   \<exists>m. mem (split_blocks s fk k p) = bit_flip m (alloc (bd_sizes s fk)) (blk_index s fk p sdiv 2)"
proof (induction s fk k p rule: split_blocks.induct)
  case (1 s fk k p)
  let ?s1 = "set_mem s (bit_set (mem s) (split (bd_sizes s k)) (blk_index s k p))"
  let ?s2 = "set_mem ?s1 (bit_flip (mem ?s1) (alloc (bd_sizes ?s1 (k - 1))) (blk_index ?s1 (k - 1) p sdiv 2))"
  let ?s3 = "set_free ?s2 (k - 1) (lst_push (free (bd_sizes ?s2 (k - 1))) (p + BLK_SIZE (k - 1)))"
  have step: "split_blocks s fk k p = split_blocks ?s3 fk (k - 1) p"
    using 1(2) by (subst split_blocks_step) (simp add: Let_def)
  show ?case
  proof (cases "fk < k - 1")
    case True
    from 1(1) [OF 1(2) refl refl refl refl True] step show ?thesis by simp
  next
    case False
    with 1(2) have "k - 1 = fk" by simp
    then have "split_blocks ?s3 fk (k - 1) p = ?s3"
      by (subst split_blocks_step) simp
    with step \<open>k - 1 = fk\<close> show ?thesis by auto
  qed
qed

lemma bd_malloc_class_null:
  "fst (bd_malloc_class s fk) = None \<longleftrightarrow> nsizes s \<le> find_free s fk"
  by (simp add: bd_malloc_class_def Let_def split: prod.splits)

lemma bd_malloc_class_null_state:
  "fst (bd_malloc_class s fk) = None \<Longrightarrow> snd (bd_malloc_class s fk) = s"
  by (simp add: bd_malloc_class_def Let_def split: prod.splits if_splits)

lemma bd_malloc_class_grant:
  assumes fk: "0 \<le> fk" and ok: "bd_malloc_class s fk = (Some p, s')"
  shows "free_bytes s - free_bytes s' = BLK_SIZE fk"
    and "\<exists>m. mem s' = bit_flip m (alloc (bd_sizes s fk)) (blk_index s fk p sdiv 2)"
    and "fk \<le> find_free s fk \<and> find_free s fk < nsizes s
         \<and> free (bd_sizes s (find_free s fk)) = p # free (bd_sizes s' (find_free s fk))
         \<and> (\<forall>j. j \<noteq> find_free s fk \<longrightarrow> free (bd_sizes s' j) =
               (if fk \<le> j \<and> j < find_free s fk then [p + BLK_SIZE j] else free (bd_sizes s j)))"
proof -
  define kf where "kf = find_free s fk"
  have lt: "kf < nsizes s"
    using ok by (auto simp: bd_malloc_class_def Let_def kf_def split: if_splits)
  have ge: "fk \<le> kf" unfolding kf_def by (rule find_free_ge)
  have ne: "free (bd_sizes s kf) \<noteq> []"
    using lt unfolding kf_def by (rule find_free_nonempty)
  define s1 where "s1 = set_free s kf (tl (free (bd_sizes s kf)))"
  define s2 where "s2 = set_mem s1 (bit_flip (mem s1) (alloc (bd_sizes s1 kf)) (blk_index s1 kf p sdiv 2))"
  have p: "p = hd (free (bd_sizes s kf))" and s': "s' = split_blocks s2 fk kf p"
    using ok lt by (auto simp: bd_malloc_class_def Let_def kf_def lst_pop_def s1_def s2_def split: if_splits)
  have "int (length (tl (free (bd_sizes s kf)))) = int (length (free (bd_sizes s kf))) - 1"
    using ne by (cases "free (bd_sizes s kf)") simp_all
  then have fb1: "free_bytes s2 = free_bytes s - BLK_SIZE kf"
    using fk ge lt by (simp add: s2_def s1_def free_bytes_set_free)
  have "free_bytes s' = free_bytes s2 + BLK_SIZE kf - BLK_SIZE fk"
    unfolding s' using fk ge lt by (intro free_bytes_split_blocks) (simp_all add: s2_def s1_def)
  with fb1 show "free_bytes s - free_bytes s' = BLK_SIZE fk" by simp
  show "\<exists>m. mem s' = bit_flip m (alloc (bd_sizes s fk)) (blk_index s fk p sdiv 2)"
  proof (cases "fk < kf")
    case True
    from mem_split_blocks [OF True, of s2 p] show ?thesis
      by (simp add: s' s2_def s1_def)
  next
    case False
    with ge have "kf = fk" by simp
    then have "s' = s2" unfolding s' by (subst split_blocks_step) simp
    with \<open>kf = fk\<close> show ?thesis by (auto simp: s2_def s1_def)
  qed
  have "free (bd_sizes s kf) = p # free (bd_sizes s' kf)"
    using ne by (simp add: s' free_split_blocks s2_def s1_def p)
  moreover have "\<forall>j. j \<noteq> kf \<longrightarrow> free (bd_sizes s' j) =
               (if fk \<le> j \<and> j < kf then [p + BLK_SIZE j] else free (bd_sizes s j))"
    using find_free_skips [of fk _ s] by (auto simp: s' free_split_blocks s2_def s1_def kf_def)
  ultimately show "fk \<le> find_free s fk \<and> find_free s fk < nsizes s
         \<and> free (bd_sizes s (find_free s fk)) = p # free (bd_sizes s' (find_free s fk))
         \<and> (\<forall>j. j \<noteq> find_free s fk \<longrightarrow> free (bd_sizes s' j) =
               (if fk \<le> j \<and> j < find_free s fk then [p + BLK_SIZE j] else free (bd_sizes s j)))"
    using ge lt by (simp add: kf_def)
qed

lemma BLK_SIZE_nat: "BLK_SIZE k = 2 ^ (4 + nat k)"
  by (simp add: BLK_SIZE_def LEAF_SIZE_def power_add)

lemma firstk_nonneg: "firstk n = Some fk \<Longrightarrow> 0 \<le> fk"
proof (cases "unat n \<le> 2 ^ 63")
  case True
  assume "firstk n = Some fk"
  with firstk_least [OF True] show ?thesis by auto
next
  case False
  assume "firstk n = Some fk"
  with firstk_diverges [of n] False show ?thesis by simp
qed

text \<open>\<open>firstk\<close> returns the class \<open>k\<close> with \<open>BLK_SIZE (k - 1) < n \<le> BLK_SIZE k\<close>, when it returns.\<close>

lemma firstk_exact:
  assumes k: "0 \<le> k" and up: "uint n \<le> BLK_SIZE k" and low: "k = 0 \<or> BLK_SIZE (k - 1) < uint n"
    and small: "unat n \<le> 2 ^ 63"
  shows "firstk n = Some k"
proof -
  from firstk_least [OF small] obtain j where
    j: "firstk n = Some (int j)" "unat n \<le> 2 ^ (4 + j)" "\<forall>i<j. (2::nat) ^ (4 + i) < unat n"
    by blast
  have un: "uint n = int (unat n)" by simp
  have "int (unat n) \<le> 2 ^ (4 + nat k)"
    using up by (simp add: BLK_SIZE_nat)
  then have "unat n \<le> 2 ^ (4 + nat k)"
    by (metis of_nat_le_iff of_nat_numeral of_nat_power)
  with j(3) have 1: "j \<le> nat k" by (meson not_le)
  have 2: "nat k \<le> j"
  proof (cases "k = 0")
    case True
    then show ?thesis by simp
  next
    case False
    with low have "(2::int) ^ (4 + nat (k - 1)) < int (unat n)"
      by (simp add: BLK_SIZE_nat)
    then have "(2::nat) ^ (4 + nat (k - 1)) < unat n"
      by (metis of_nat_less_iff of_nat_numeral of_nat_power)
    then have "(2::nat) ^ (4 + nat (k - 1)) < 2 ^ (4 + j)"
      using j(2) by (rule less_le_trans)
    then have "nat (k - 1) < j" by simp
    with k False show ?thesis by simp
  qed
  from 1 2 k j(1) show ?thesis by simp
qed

text \<open>
  Claim C6 (exact-fit class selection).  For a request \<open>n\<close> with
  \<open>BLK_SIZE (k - 1) < n \<le> BLK_SIZE k\<close> (for \<open>k = 0\<close>: \<open>n \<le> BLK_SIZE 0\<close>), \<open>firstk\<close>
  returns \<open>k\<close>, the least class that fits, and a successful \<open>bd_malloc\<close> grants a block
  of class exactly \<open>k\<close>: the free lists lose \<open>BLK_SIZE k\<close> bytes, the last bitmap write
  is the flip of the block's pair bit at class \<open>k\<close>, and the block is the head of the
  first non-empty class \<open>kf \<ge> k\<close>, whose upper halves go back to the classes from \<open>k\<close>
  to \<open>kf - 1\<close>.  Classes above 59 do not fit a 64-bit size.
\<close>

theorem bd_malloc_exact_fit:
  assumes "0 \<le> k" and "uint n \<le> BLK_SIZE k" and "k = 0 \<or> BLK_SIZE (k - 1) < uint n"
  shows "(k \<le> 59 \<longrightarrow> firstk n = Some k) \<and>
         (\<forall>p s'. bd_malloc s n = Some (Some p, s') \<longrightarrow>
            firstk n = Some k \<and>
            free_bytes s - free_bytes s' = BLK_SIZE k \<and>
            (\<exists>m. mem s' = bit_flip m (alloc (bd_sizes s k)) (blk_index s k p sdiv 2)) \<and>
            (\<exists>kf. k \<le> kf \<and> kf < nsizes s \<and>
               free (bd_sizes s kf) = p # free (bd_sizes s' kf) \<and>
               (\<forall>j. j \<noteq> kf \<longrightarrow> free (bd_sizes s' j) =
                  (if k \<le> j \<and> j < kf then [p + BLK_SIZE j] else free (bd_sizes s j)))))"
proof (intro conjI impI allI)
  assume "k \<le> 59"
  with assms(1) have "nat k \<le> 59" by simp
  then have "(2::int) ^ (4 + nat k) \<le> 2 ^ 63"
    by (intro power_increasing) simp_all
  with assms(2) have "int (unat n) \<le> 2 ^ 63"
    by (simp add: BLK_SIZE_nat)
  then have "unat n \<le> 2 ^ 63"
    by (metis of_nat_le_iff of_nat_numeral of_nat_power)
  with assms show "firstk n = Some k" by (rule firstk_exact)
next
  fix p s'
  assume ok: "bd_malloc s n = Some (Some p, s')"
  then obtain fk where fk: "firstk n = Some fk" and cl: "bd_malloc_class s fk = (Some p, s')"
    by (auto simp: bd_malloc_def)
  have small: "unat n \<le> 2 ^ 63"
    using firstk_diverges [of n] fk by (cases "unat n \<le> 2 ^ 63") simp_all
  with assms have "firstk n = Some k" by (rule firstk_exact)
  with fk have [simp]: "fk = k" by simp
  show "firstk n = Some k" by fact
  from bd_malloc_class_grant [OF _ cl] assms(1)
  show "free_bytes s - free_bytes s' = BLK_SIZE k"
    and "\<exists>m. mem s' = bit_flip m (alloc (bd_sizes s k)) (blk_index s k p sdiv 2)"
    by simp_all
  from bd_malloc_class_grant(3) [OF _ cl] assms(1)
  show "\<exists>kf. k \<le> kf \<and> kf < nsizes s \<and>
               free (bd_sizes s kf) = p # free (bd_sizes s' kf) \<and>
               (\<forall>j. j \<noteq> kf \<longrightarrow> free (bd_sizes s' j) =
                  (if k \<le> j \<and> j < kf then [p + BLK_SIZE j] else free (bd_sizes s j)))"
    by (intro exI [of _ "find_free s k"]) simp
qed

lemma malloc_result:
  "(case bd_malloc s n of Some (Some q, _) \<Rightarrow> q = p | _ \<Rightarrow> False) \<Longrightarrow>
   bd_malloc s n = Some (Some p, snd (the (bd_malloc s n)))"
  by (auto split: option.splits prod.splits)

theorem bd_malloc_exact_fit_witness:
  "firstk 20 = Some 1 \<and>
   fst (the (bd_malloc heap_1008 20)) = Some 960 \<and>
   free_bytes heap_1008 - free_bytes (snd (the (bd_malloc heap_1008 20))) = 32"
proof -
  have "case bd_malloc heap_1008 20 of Some (Some q, _) \<Rightarrow> q = 960 | _ \<Rightarrow> False"
    by code_simp
  then have ok: "bd_malloc heap_1008 20 = Some (Some 960, snd (the (bd_malloc heap_1008 20)))"
    by (rule malloc_result)
  have "(0::int) \<le> 1" "uint (20::64 word) \<le> BLK_SIZE 1" "(1::int) = 0 \<or> BLK_SIZE (1 - 1) < uint (20::64 word)"
    by (simp_all add: BLK_SIZE_def LEAF_SIZE_def)
  from bd_malloc_exact_fit [OF this, of heap_1008] ok
  have "firstk 20 = Some 1 \<and>
        free_bytes heap_1008 - free_bytes (snd (the (bd_malloc heap_1008 20))) = BLK_SIZE 1"
    by blast
  moreover have "fst (the (bd_malloc heap_1008 20)) = Some 960"
    by (subst ok) simp
  ultimately show ?thesis by (simp add: BLK_SIZE_def LEAF_SIZE_def)
qed

text \<open>
  A request of at most \<open>2 ^ 63\<close> bytes comes back null exactly when every class from
  \<open>firstk\<close> upward has an empty free list, and then the state is unchanged.
\<close>

lemma bd_malloc_null_iff:
  assumes "unat n \<le> 2 ^ 63"
  shows "\<exists>fk r. firstk n = Some fk \<and> 0 \<le> fk \<and> bd_malloc s n = Some r \<and>
           (fst r = None \<longleftrightarrow> (\<forall>j. fk \<le> j \<and> j < nsizes s \<longrightarrow> free (bd_sizes s j) = [])) \<and>
           (fst r = None \<longrightarrow> snd r = s)"
proof -
  from firstk_least [OF assms] obtain j where j: "firstk n = Some (int j)" by blast
  then have "bd_malloc s n = Some (bd_malloc_class s (int j))"
    by (simp add: bd_malloc_def)
  with j show ?thesis
    using bd_malloc_class_null [of s "int j"] bd_malloc_class_null_state [of s "int j"]
      find_free_null_iff [of s "int j"]
    by (intro exI [of _ "int j"] exI [of _ "bd_malloc_class s (int j)"]) simp
qed

text \<open>
  Claim C7 (out of memory).  For a request above \<open>2 ^ 63\<close> bytes no class fits, so the
  claim asks for the null return; \<open>firstk\<close> doubles its size to \<open>2 ^ 64 = 0\<close> and loops
  for ever, and \<open>bd_malloc\<close> does not return at all.
\<close>

theorem bd_malloc_huge_request: "firstk (2 ^ 63 + 1) = None \<and> bd_malloc s (2 ^ 63 + 1) = None"
proof -
  have "firstk (2 ^ 63 + 1) = None"
    by (rule firstk_diverges) simp
  then show ?thesis by (simp add: bd_malloc_def)
qed

text \<open>
  Claim C10 (minimum grant, zero-size requests).  A request of 0 to \<open>LEAF_SIZE\<close> bytes
  selects class 0 and always returns; it returns null only when every free list is
  empty; on success the free lists lose exactly \<open>LEAF_SIZE\<close> bytes and the last bitmap
  write is the flip of the block's pair bit at class 0.  No successful request, of any
  size, takes fewer than \<open>LEAF_SIZE\<close> bytes.
\<close>

theorem bd_malloc_leaf:
  assumes "uint n \<le> LEAF_SIZE"
  shows "firstk n = Some 0 \<and> bd_malloc s n = Some (bd_malloc_class s 0) \<and>
         (fst (bd_malloc_class s 0) = None \<longleftrightarrow>
            (\<forall>j. 0 \<le> j \<and> j < nsizes s \<longrightarrow> free (bd_sizes s j) = [])) \<and>
         (\<forall>p s'. bd_malloc s n = Some (Some p, s') \<longrightarrow>
            free_bytes s - free_bytes s' = LEAF_SIZE \<and>
            (\<exists>m. mem s' = bit_flip m (alloc (bd_sizes s 0)) (blk_index s 0 p sdiv 2))) \<and>
         (\<forall>n' p s'. bd_malloc s n' = Some (Some p, s') \<longrightarrow> LEAF_SIZE \<le> free_bytes s - free_bytes s')"
proof -
  have up: "uint n \<le> BLK_SIZE 0" using assms by (simp add: BLK_SIZE_def)
  from bd_malloc_exact_fit [OF _ up, of s]
  have fit: "firstk n = Some 0"
    and grant: "\<forall>p s'. bd_malloc s n = Some (Some p, s') \<longrightarrow>
            free_bytes s - free_bytes s' = BLK_SIZE 0 \<and>
            (\<exists>m. mem s' = bit_flip m (alloc (bd_sizes s 0)) (blk_index s 0 p sdiv 2))"
    by simp_all
  have any: "LEAF_SIZE \<le> free_bytes s - free_bytes s'" if "bd_malloc s n' = Some (Some p, s')" for n' p s'
  proof -
    from that obtain fk where fk: "firstk n' = Some fk" and cl: "bd_malloc_class s fk = (Some p, s')"
      by (auto simp: bd_malloc_def)
    from firstk_nonneg [OF fk] have "0 \<le> fk" .
    from bd_malloc_class_grant(1) [OF this cl] have "free_bytes s - free_bytes s' = BLK_SIZE fk" .
    moreover have "LEAF_SIZE \<le> BLK_SIZE fk"
      by (simp add: BLK_SIZE_def LEAF_SIZE_def)
    ultimately show ?thesis by simp
  qed
  from fit have "bd_malloc s n = Some (bd_malloc_class s 0)"
    by (simp add: bd_malloc_def)
  with fit grant any show ?thesis
    using bd_malloc_class_null [of s 0] find_free_null_iff [of s 0]
    by (simp add: BLK_SIZE_def)
qed

theorem bd_malloc_leaf_witness:
  "firstk 0 = Some 0 \<and> fst (the (bd_malloc heap_1008 0)) = Some 992 \<and>
   free_bytes heap_1008 - free_bytes (snd (the (bd_malloc heap_1008 0))) = 16"
proof -
  have "case bd_malloc heap_1008 0 of Some (Some q, _) \<Rightarrow> q = 992 | _ \<Rightarrow> False"
    by code_simp
  then have ok: "bd_malloc heap_1008 0 = Some (Some 992, snd (the (bd_malloc heap_1008 0)))"
    by (rule malloc_result)
  have "uint (0::64 word) \<le> LEAF_SIZE" by (simp add: LEAF_SIZE_def)
  from bd_malloc_leaf [OF this, of heap_1008] ok
  have "firstk 0 = Some 0 \<and>
        free_bytes heap_1008 - free_bytes (snd (the (bd_malloc heap_1008 0))) = LEAF_SIZE"
    by blast
  moreover have "fst (the (bd_malloc heap_1008 0)) = Some 992"
    by (subst ok) simp
  ultimately show ?thesis by (simp add: LEAF_SIZE_def)
qed

text \<open>
  Claim C9 (alignment check of range marking).  \<open>bd_mark\<close> ends in the panic exactly when
  \<open>start\<close> or \<open>stop\<close> is not a multiple of \<open>LEAF_SIZE\<close>; for aligned bounds it runs its
  loops to the end and returns the state and the bytes it freed.
\<close>

theorem bd_mark_panic_iff:
  "(bd_mark s start stop is_left = Inl (Panic ''bd_mark'')) =
     (to_uint64 start mod LEAF_SIZE \<noteq> 0 \<or> to_uint64 stop mod LEAF_SIZE \<noteq> 0) \<and>
   (isl (bd_mark s start stop is_left) =
     (to_uint64 start mod LEAF_SIZE \<noteq> 0 \<or> to_uint64 stop mod LEAF_SIZE \<noteq> 0))"
  by (simp add: bd_mark_def)

theorem bd_mark_panic_iff_witness:
  "bd_mark heap_1008 8 32 True = Inl (Panic ''bd_mark'') \<and>
   bd_mark heap_1008 16 40 True = Inl (Panic ''bd_mark'') \<and>
   \<not> isl (bd_mark heap_1008 16 32 True)"
  using bd_mark_panic_iff [of heap_1008 8 32 True] bd_mark_panic_iff [of heap_1008 16 40 True]
    bd_mark_panic_iff [of heap_1008 16 32 True]
  by (simp add: to_uint64_def LEAF_SIZE_def)

subsection \<open>Deallocation\<close>

lemma bit_isset_bit_set [simp]: "bit_isset (bit_set m a i) a i"
  by (simp add: bit_isset_def bit_set_def Let_def)

text \<open>
  \<open>bd_free\<close> sets the pair bit and then tests the bit it has just set: the test always
  succeeds, the loop leaves at its first iteration and no buddy is ever merged.
\<close>

lemma free_loop_no_merge:
  "free_loop s k p =
     (if k < MAXSIZE s
      then (set_mem s (bit_set (mem s) (alloc (bd_sizes s k)) (blk_index s k p sdiv 2)), k, p)
      else (s, k, p))"
  by (subst free_loop.simps) (simp add: Let_def)

lemma bd_free_push:
  "bd_free s p =
     (case size_blk s p of
        Inl e \<Rightarrow> Inl e
      | Inr k \<Rightarrow>
          Inr (set_free
                 (if k < MAXSIZE s
                  then set_mem s (bit_set (mem s) (alloc (bd_sizes s k)) (blk_index s k p sdiv 2))
                  else s)
                 k (p # free (bd_sizes s k))))"
  by (simp add: bd_free_def free_loop_no_merge lst_push_def split: sum.splits)

lemma size_loop_step:
  "size_loop s k p =
     (if k < nsizes s then
        (if k + 1 \<ge> nsizes s then Inl OutOfBounds
         else if bit_isset (mem s) (split (bd_sizes s (k + 1))) (blk_index s (k + 1) p) then Inr k
         else size_loop s (k + 1) p)
      else Inr 0)"
  by (subst size_loop.simps) simp

text \<open>
  What \<open>size\<close> returns from class \<open>k\<close> on: the first class \<open>r \<ge> k\<close> below \<open>nsizes - 1\<close>
  whose parent class has the split bit of the block set.
\<close>

lemma size_loop_found:
  assumes "k \<le> r" and "r + 1 < nsizes s"
    and "bit_isset (mem s) (split (bd_sizes s (r + 1))) (blk_index s (r + 1) p)"
    and "\<forall>j. k \<le> j \<and> j < r \<longrightarrow> \<not> bit_isset (mem s) (split (bd_sizes s (j + 1))) (blk_index s (j + 1) p)"
  shows "size_loop s k p = Inr r"
  using assms
proof (induction s k p rule: size_loop.induct)
  case (1 s k p)
  show ?case
  proof (cases "k = r")
    case True
    with 1(3,4) show ?thesis by (subst size_loop_step) simp
  next
    case False
    with 1(2) have lt: "k < r" by simp
    with 1(5) have nb: "\<not> bit_isset (mem s) (split (bd_sizes s (k + 1))) (blk_index s (k + 1) p)"
      by simp
    have "size_loop s (k + 1) p = Inr r"
      using lt 1(3,4,5) nb by (intro 1(1)) simp_all
    with lt 1(3) nb show ?thesis by (subst size_loop_step) simp
  qed
qed





text \<open>
  Claim C1 (coalescing on free).  In the region of 1008 bytes three requests of 16 bytes
  return 992, then 960 (splitting the class-1 block at 960) and its buddy 976.  Freeing
  960 and 976 leaves both on the free list of class 0: the class-1 block is not restored
  and its split bit stays set.  \<open>bd_free\<close> updates the pair bit with \<open>bit_set\<close>, not
  with the flip of \<open>bd_malloc\<close>, and so never merges (lemmas \<open>free_loop_no_merge\<close>,
  \<open>bd_free_push\<close>).
\<close>

theorem bd_free_no_coalescing:
  "case bd_malloc heap_1008 16 of Some (Some p1, s1) \<Rightarrow>
    (case bd_malloc s1 16 of Some (Some p2, s2) \<Rightarrow>
      (case bd_malloc s2 16 of Some (Some p3, s3) \<Rightarrow>
        (case bd_free s3 p2 of Inr s4 \<Rightarrow>
          (case bd_free s4 p3 of Inr s5 \<Rightarrow>
             p1 = 992 \<and> p2 = 960 \<and> p3 = 976 \<and>
             free (bd_sizes s1 1) = [960] \<and> free (bd_sizes s1 0) = [] \<and>
             free (bd_sizes s3 1) = [] \<and> free (bd_sizes s3 0) = [] \<and>
             free (bd_sizes s5 1) = [] \<and> free (bd_sizes s5 0) = [976, 960] \<and>
             bit_isset (mem s5) (split (bd_sizes s5 1)) (blk_index s5 1 960)
           | _ \<Rightarrow> False) | _ \<Rightarrow> False) | _ \<Rightarrow> False) | _ \<Rightarrow> False) | _ \<Rightarrow> False"
  by code_simp

text \<open>
  Claim C2 (round trip).  After one request of 16 bytes (which returns 992), a second one
  returns 960 by splitting the class-1 block; freeing 960 at once does not restore the
  state: class 1 has lost its block and class 0 holds the two halves.
\<close>

theorem malloc_free_not_identity:
  "case bd_malloc heap_1008 16 of Some (Some p1, s1) \<Rightarrow>
    (case bd_malloc s1 16 of Some (Some p2, s2) \<Rightarrow>
       (case bd_free s2 p2 of Inr s3 \<Rightarrow>
          p1 = 992 \<and> p2 = 960 \<and>
          free (bd_sizes s1 0) = [] \<and> free (bd_sizes s1 1) = [960] \<and>
          free (bd_sizes s3 0) = [960, 976] \<and> free (bd_sizes s3 1) = []
        | _ \<Rightarrow> False) | _ \<Rightarrow> False) | _ \<Rightarrow> False"
  by code_simp

subsection \<open>Accounting at initialization\<close>

lemma mark_blocks_step:
  "mark_blocks s k bi bj =
     (if bi < bj then
        let s1 = (if k > 0 then set_mem s (bit_set (mem s) (split (bd_sizes s k)) bi) else s);
            s2 = set_mem s1 (bit_flip (mem s1) (alloc (bd_sizes s1 k)) (bi sdiv 2))
        in mark_blocks s2 k (bi + 1) bj
      else s)"
  by (subst mark_blocks.simps) simp

lemma bd_sizes_mark_blocks [simp]: "bd_sizes (mark_blocks s k bi bj) = bd_sizes s"
  by (induction s k bi bj rule: mark_blocks.induct) (subst mark_blocks_step, simp add: Let_def)

lemma bd_base_mark_blocks [simp]: "bd_base (mark_blocks s k bi bj) = bd_base s"
  by (induction s k bi bj rule: mark_blocks.induct) (subst mark_blocks_step, simp add: Let_def)

lemma free_bytes_cong:
  "nsizes s' = nsizes s \<Longrightarrow> (\<And>j. free (bd_sizes s' j) = free (bd_sizes s j)) \<Longrightarrow>
   free_bytes s' = free_bytes s"
  by (simp add: free_bytes_def)

lemma free_bytes_mark_blocks [simp]: "free_bytes (mark_blocks s k bi bj) = free_bytes s"
  by (rule free_bytes_cong) simp_all

lemma to_int_to_int_add: "to_int (to_int x + y) = to_int (x + y)"
proof -
  have "(to_int x + y + 2 ^ 31) mod 2 ^ 32 = (x + y + 2 ^ 31) mod 2 ^ 32"
    unfolding to_int_def by (simp add: algebra_simps mod_simps)
  then show ?thesis by (simp add: to_int_def)
qed

lemma to_int_idem [simp]: "to_int (to_int x) = to_int x"
  using to_int_to_int_add [of x 0] by simp

lemma to_int_id: "- (2 ^ 31) \<le> x \<Longrightarrow> x < 2 ^ 31 \<Longrightarrow> to_int x = x"
  by (simp add: to_int_def)

text \<open>
  One class of \<open>bd_mark\<close>: the bytes pushed on the free list are the bytes added to
  \<open>free_ret\<close>, at most one block, and none from class \<open>nsizes - 2\<close> on.
\<close>

lemma mark_class_free_bytes:
  assumes "0 \<le> k" and "k < nsizes s"
  shows "\<exists>d. (d = 0 \<or> d = BLK_SIZE k \<and> k < nsizes s - 2)
           \<and> free_bytes (fst (mark_class s k start stop is_left fr)) = free_bytes s + d
           \<and> to_int (snd (mark_class s k start stop is_left fr)) = to_int (fr + d)"
proof (cases is_left)
  case True
  show ?thesis
  proof (cases "k < nsizes s - 2 \<and> blk_index_next s k stop smod 2 \<noteq> 0")
    case push: True
    with True assms show ?thesis
      by (intro exI [of _ "BLK_SIZE k"])
         (simp add: mark_class_def Let_def free_bytes_set_free lst_push_def to_int_to_int_add)
  next
    case False
    with True assms show ?thesis
      by (intro exI [of _ 0]) (auto simp: mark_class_def Let_def)
  qed
next
  case False
  show ?thesis
  proof (cases "k < nsizes s - 2 \<and> blk_index s k start smod 2 \<noteq> 0")
    case push: True
    with False assms show ?thesis
      by (intro exI [of _ "BLK_SIZE k"])
         (simp add: mark_class_def Let_def free_bytes_set_free lst_push_def to_int_to_int_add)
  next
    case nopush: False
    with False assms show ?thesis
      by (intro exI [of _ 0]) (auto simp: mark_class_def Let_def)
  qed
qed


lemma BLK_SIZE_nonneg [simp]: "0 \<le> BLK_SIZE k"
  using BLK_SIZE_pos [of k] by linarith

lemma BLK_SIZE_mono: "j \<le> k \<Longrightarrow> BLK_SIZE j \<le> BLK_SIZE k"
proof -
  assume "j \<le> k"
  then have "nat j \<le> nat k" by simp
  then have "(2::int) ^ nat j \<le> 2 ^ nat k"
    by (intro power_increasing) simp_all
  then show ?thesis by (simp add: BLK_SIZE_def LEAF_SIZE_def)
qed

lemma mark_loop_step:
  "mark_loop s k start stop is_left free_ret =
     (if k < nsizes s then
        let (s', free_ret') = mark_class s k start stop is_left free_ret
        in mark_loop s' (k + 1) start stop is_left free_ret'
      else (free_ret, s))"
  by (subst mark_loop.simps) simp

lemma nsizes_mark_loop [simp]: "nsizes (snd (mark_loop s k start stop is_left fr)) = nsizes s"
proof (induction s k start stop is_left fr rule: mark_loop.induct)
  case (1 s k start stop is_left fr)
  show ?case
  proof (cases "k < nsizes s")
    case True
    obtain s' fr' where mc: "mark_class s k start stop is_left fr = (s', fr')"
      by (cases "mark_class s k start stop is_left fr")
    have "nsizes s' = nsizes s"
      using nsizes_mark_class [of s k start stop is_left fr] mc by simp
    with 1 [OF True mc [symmetric] refl] True mc show ?thesis
      by (subst mark_loop_step) simp
  next
    case False
    then show ?thesis by (subst mark_loop_step) simp
  qed
qed

text \<open>
  The classes from \<open>k\<close> on: the bytes pushed, \<open>d\<close>, are what \<open>free_ret\<close> gains, and
  they stay below the sum of the block sizes of the classes \<open>k\<close> to \<open>nsizes - 3\<close>.
\<close>

lemma mark_loop_free_bytes:
  assumes "0 \<le> k"
  shows "\<exists>d. 0 \<le> d \<and> d \<le> (if k \<le> nsizes s - 2 then BLK_SIZE (nsizes s - 2) - BLK_SIZE k else 0)
           \<and> free_bytes (snd (mark_loop s k start stop is_left fr)) = free_bytes s + d
           \<and> to_int (fst (mark_loop s k start stop is_left fr)) = to_int (fr + d)"
  using assms
proof (induction s k start stop is_left fr rule: mark_loop.induct)
  case (1 s k start stop is_left fr)
  show ?case
  proof (cases "k < nsizes s")
    case True
    obtain s' fr' where mc: "mark_class s k start stop is_left fr = (s', fr')"
      by (cases "mark_class s k start stop is_left fr")
    have ns: "nsizes s' = nsizes s"
      using nsizes_mark_class [of s k start stop is_left fr] mc by simp
    from mark_class_free_bytes [OF 1(2) True, of start stop is_left fr] mc
    obtain d1 where d1: "d1 = 0 \<or> d1 = BLK_SIZE k \<and> k < nsizes s - 2"
      "free_bytes s' = free_bytes s + d1" "to_int fr' = to_int (fr + d1)"
      by auto
    from 1(1) [OF True mc [symmetric] refl] 1(2)
    obtain d2 where d2: "0 \<le> d2"
      "d2 \<le> (if k + 1 \<le> nsizes s' - 2 then BLK_SIZE (nsizes s' - 2) - BLK_SIZE (k + 1) else 0)"
      "free_bytes (snd (mark_loop s' (k + 1) start stop is_left fr')) = free_bytes s' + d2"
      "to_int (fst (mark_loop s' (k + 1) start stop is_left fr')) = to_int (fr' + d2)"
      by auto
    have step: "mark_loop s k start stop is_left fr = mark_loop s' (k + 1) start stop is_left fr'"
      using True mc by (subst mark_loop_step) simp
    have dbl: "BLK_SIZE (k + 1) = 2 * BLK_SIZE k"
      using 1(2) BLK_SIZE_Suc [of "k + 1"] by simp
    have mono: "BLK_SIZE k \<le> BLK_SIZE (nsizes s - 2)" if "k \<le> nsizes s - 2"
      using that by (rule BLK_SIZE_mono)
    have "to_int (fr' + d2) = to_int (fr + (d1 + d2))"
      using d1(3) to_int_to_int_add [of fr' d2] to_int_to_int_add [of "fr + d1" d2]
      by (simp add: add.assoc)
    moreover have "0 \<le> d1" using d1(1) by auto
    then have "0 \<le> d1 + d2" using d2(1) by simp
    moreover have "d1 + d2 \<le> (if k \<le> nsizes s - 2 then BLK_SIZE (nsizes s - 2) - BLK_SIZE k else 0)"
    proof -
      have d1le: "d1 \<le> BLK_SIZE k" using d1(1) by auto
      show ?thesis
      proof (cases "k + 1 \<le> nsizes s - 2")
        case True
        with d2(2) ns dbl have "d2 \<le> BLK_SIZE (nsizes s - 2) - 2 * BLK_SIZE k" by simp
        with d1le have "d1 + d2 \<le> BLK_SIZE (nsizes s - 2) - BLK_SIZE k" by linarith
        with True show ?thesis by simp
      next
        case False
        with d2(1,2) ns have d20: "d2 = 0" by simp
        show ?thesis
        proof (cases "d1 = 0")
          case True
          with d20 mono show ?thesis by simp
        next
          case nz: False
          with d1(1) have "k < nsizes s - 2" by simp
          with False show ?thesis by simp
        qed
      qed
    qed
    ultimately show ?thesis
      using step d1(2) d2(3,4) by (intro exI [of _ "d1 + d2"]) simp
  next
    case False
    then show ?thesis
      by (intro exI [of _ 0]) (subst mark_loop_step, simp)+
  qed
qed


lemma mark_class_ret_int:
  "to_int fr = fr \<Longrightarrow>
   to_int (snd (mark_class s k start stop is_left fr)) = snd (mark_class s k start stop is_left fr)"
  by (simp add: mark_class_def Let_def)

lemma mark_loop_ret_int:
  "to_int fr = fr \<Longrightarrow>
   to_int (fst (mark_loop s k start stop is_left fr)) = fst (mark_loop s k start stop is_left fr)"
proof (induction s k start stop is_left fr rule: mark_loop.induct)
  case (1 s k start stop is_left fr)
  show ?case
  proof (cases "k < nsizes s")
    case True
    obtain s' fr' where mc: "mark_class s k start stop is_left fr = (s', fr')"
      by (cases "mark_class s k start stop is_left fr")
    have "to_int fr' = fr'"
      using mark_class_ret_int [OF 1(2), of s k start stop is_left] mc by simp
    with 1(1) [OF True mc [symmetric] refl] True mc show ?thesis
      by (subst (1 2) mark_loop_step) simp
  next
    case False
    with 1(2) show ?thesis by (subst (1 2) mark_loop_step) simp
  qed
qed

text \<open>
  A whole \<open>bd_mark\<close> from empty accounting: without overflow of \<open>int\<close>, the bytes it
  returns are the bytes it has pushed, less than half the heap.
\<close>

lemma bd_mark_free_bytes:
  assumes "bd_mark s start stop is_left = Inr (fr, s')" and "HEAP_SIZE s \<le> 2 ^ 31"
  shows "nsizes s' = nsizes s \<and> free_bytes s' = free_bytes s + fr \<and> 0 \<le> fr \<and> 2 * fr < 2 ^ 31"
proof -
  from assms(1) have ml: "mark_loop s 0 start stop is_left 0 = (fr, s')"
    by (simp add: bd_mark_def split: if_splits)
  from mark_loop_free_bytes [of 0 s start stop is_left 0] ml
  obtain d where d: "0 \<le> d"
    "d \<le> (if 0 \<le> nsizes s - 2 then BLK_SIZE (nsizes s - 2) - BLK_SIZE 0 else 0)"
    "free_bytes s' = free_bytes s + d" "to_int fr = to_int d"
    by auto
  have "to_int fr = fr"
    using mark_loop_ret_int [of 0 s 0 start stop is_left] ml by (simp add: to_int_def)
  have "2 * d < 2 ^ 31"
  proof (cases "0 \<le> nsizes s - 2")
    case True
    then have "BLK_SIZE (nsizes s - 1) = 2 * BLK_SIZE (nsizes s - 2)"
      using BLK_SIZE_Suc [of "nsizes s - 1"] by simp
    with assms(2) have "2 * BLK_SIZE (nsizes s - 2) \<le> 2 ^ 31"
      by (simp add: HEAP_SIZE_def MAXSIZE_def)
    moreover have "BLK_SIZE 0 = 16" by (simp add: BLK_SIZE_def LEAF_SIZE_def)
    with d(2) True have "d < BLK_SIZE (nsizes s - 2)" by simp
    ultimately show ?thesis by simp
  next
    case False
    with d(1,2) show ?thesis by simp
  qed
  with d(1) have "to_int d = d" by (intro to_int_id) simp_all
  with d \<open>to_int fr = fr\<close> \<open>2 * d < 2 ^ 31\<close> ml show ?thesis
    using nsizes_mark_loop [of s 0 start stop is_left 0] by simp
qed

lemma init_alloc_step:
  "init_alloc s k p =
     (if k < nsizes s then
        let s1 = set_free s k lst_init;
            sz = to_int (to_uint64 (ROUNDUP (NBLK s1 k) 8) div 16);
            s2 = set_alloc s1 k p;
            s3 = set_mem s2 (memset (mem s2) (alloc (bd_sizes s2 k)) 0 (to_uint64 sz))
        in init_alloc s3 (k + 1) (p + sz)
      else (s, p))"
  by (subst init_alloc.simps) simp

lemma init_split_step:
  "init_split s k p =
     (if k < nsizes s then
        let sz = to_int (to_uint64 (ROUNDUP (NBLK s k) 8) div 8);
            s1 = set_split s k p;
            s2 = set_mem s1 (memset (mem s1) (split (bd_sizes s1 k)) 0 (to_uint64 sz))
        in init_split s2 (k + 1) (p + sz)
      else (s, p))"
  by (subst init_split.simps) simp

lemma free_set_alloc [simp]: "free (bd_sizes (set_alloc s k p) j) = free (bd_sizes s j)"
  by (simp add: set_alloc_def)

lemma free_set_split [simp]: "free (bd_sizes (set_split s k p) j) = free (bd_sizes s j)"
  by (simp add: set_split_def)

lemma init_alloc_props:
  "nsizes (fst (init_alloc s k p)) = nsizes s \<and>
   ((\<forall>j. free (bd_sizes s j) = []) \<longrightarrow> (\<forall>j. free (bd_sizes (fst (init_alloc s k p)) j) = []))"
  by (induction s k p rule: init_alloc.induct)
     (subst (1 2) init_alloc_step, simp add: Let_def lst_init_def)

lemma init_split_props:
  "nsizes (fst (init_split s k p)) = nsizes s \<and>
   ((\<forall>j. free (bd_sizes s j) = []) \<longrightarrow> (\<forall>j. free (bd_sizes (fst (init_split s k p)) j) = []))"
  by (induction s k p rule: init_split.induct)
     (subst (1 2) init_split_step, simp add: Let_def)

lemma free_bytes_empty: "(\<forall>j. free (bd_sizes s j) = []) \<Longrightarrow> free_bytes s = 0"
  by (simp add: free_bytes_def)

lemma HEAP_SIZE_cong: "nsizes s' = nsizes s \<Longrightarrow> HEAP_SIZE s' = HEAP_SIZE s"
  by (simp add: HEAP_SIZE_def MAXSIZE_def)

lemma bd_init_layout_shape:
  "\<exists>s0 p1. (\<forall>j. free (bd_sizes s0 j) = []) \<and>
     fst (bd_init_layout base endp m) =
       fst (init_split (fst (init_alloc s0 0 p1)) 1 (snd (init_alloc s0 0 p1)))"
  unfolding bd_init_layout_def Let_def case_prod_beta fst_conv
  by (rule exI, rule exI, rule conjI [OF _ refl]) simp

lemma bd_init_layout_empty: "free (bd_sizes (fst (bd_init_layout base endp m)) j) = []"
proof -
  from bd_init_layout_shape [of base endp m] obtain s0 p1 where
    e: "\<forall>j. free (bd_sizes s0 j) = []" and
    eq: "fst (bd_init_layout base endp m) =
       fst (init_split (fst (init_alloc s0 0 p1)) 1 (snd (init_alloc s0 0 p1)))"
    by blast
  have "\<forall>j. free (bd_sizes (fst (init_alloc s0 0 p1)) j) = []"
    using init_alloc_props [of s0 0 p1] e by simp
  then have "\<forall>j. free (bd_sizes (fst (init_split (fst (init_alloc s0 0 p1)) 1 (snd (init_alloc s0 0 p1)))) j) = []"
    using init_split_props [of "fst (init_alloc s0 0 p1)" 1 "snd (init_alloc s0 0 p1)"] by simp
  with eq show ?thesis by simp
qed

lemma bd_mark_nsizes:
  assumes "bd_mark s start stop is_left = Inr (fr, s')"
  shows "nsizes s' = nsizes s"
proof -
  from assms have "s' = snd (mark_loop s 0 start stop is_left 0)"
    by (simp add: bd_mark_def split: if_splits)
  then show ?thesis by simp
qed

text \<open>The free lists after the two markings hold what the markings report.\<close>

lemma bd_init_mark_free_bytes:
  assumes "bd_init_mark base endp m = Inr (s, m_left, m_right)" and "HEAP_SIZE s \<le> 2 ^ 31"
  shows "free_bytes s = free_m m_left + free_m m_right
       \<and> to_int (free_m m_left + free_m m_right) = free_m m_left + free_m m_right"
proof -
  obtain s2 p4 where lay: "bd_init_layout base endp m = (s2, p4)"
    by (cases "bd_init_layout base endp m")
  from assms(1) lay obtain s3 where
    left: "bd_mark_data_structures s2 p4 = Inr (m_left, s3)" and
    right: "bd_mark_unavailable s3 endp p4 = Inr (m_right, s)"
    by (auto simp: bd_init_mark_def split: sum.splits)
  have empty2: "\<forall>j. free (bd_sizes s2 j) = []"
    using bd_init_layout_empty [of base endp m] lay by simp
  have fb2: "free_bytes s2 = 0" using empty2 by (rule free_bytes_empty)
  from left obtain fl where
    ml: "bd_mark s2 (bd_base s2) p4 True = Inr (fl, s3)" and fl: "free_m m_left = fl"
    by (auto simp: bd_mark_data_structures_def Let_def split: sum.splits)
  from right obtain fr stop start where
    mr: "bd_mark s3 start stop False = Inr (fr, s)" and fr: "free_m m_right = fr"
    by (auto simp: bd_mark_unavailable_def Let_def split: sum.splits)
  have ns3: "nsizes s = nsizes s3"
    using mr by (rule bd_mark_nsizes)
  have ns2: "nsizes s3 = nsizes s2"
    using ml by (rule bd_mark_nsizes)
  have h3: "HEAP_SIZE s3 \<le> 2 ^ 31" using assms(2) ns3 by (simp add: HEAP_SIZE_def MAXSIZE_def)
  have h2: "HEAP_SIZE s2 \<le> 2 ^ 31" using h3 ns2 by (simp add: HEAP_SIZE_def MAXSIZE_def)
  from bd_mark_free_bytes [OF ml h2] bd_mark_free_bytes [OF mr h3] fb2 fl fr
  have "free_bytes s = fl + fr" "0 \<le> fl" "0 \<le> fr" "fl + fr < 2 ^ 31" by simp_all
  with fl fr show ?thesis by (simp add: to_int_id)
qed

text \<open>
  Claim C3 (accounting at initialization).  For a heap of at most \<open>2 ^ 31\<close> bytes, where
  the \<open>int\<close> counters of \<open>bd_mark\<close> and \<open>bd_init\<close> do not overflow: when \<open>bd_init\<close>
  completes, the bytes on the free lists plus the metadata bytes plus the unavailable
  bytes (the two \<open>meta\<close> fields) are \<open>HEAP_SIZE\<close>; and when the two markings leave any
  other sum, \<open>bd_init\<close> ends in the panic.
\<close>

theorem bd_init_accounting:
  assumes "HEAP_SIZE s \<le> 2 ^ 31"
  shows "(bd_init base endp m = Inr s \<longrightarrow>
            (\<exists>m_left m_right. bd_init_mark base endp m = Inr (s, m_left, m_right) \<and>
               free_bytes s + meta m_left + meta m_right = HEAP_SIZE s)) \<and>
         (\<forall>m_left m_right. bd_init_mark base endp m = Inr (s, m_left, m_right) \<and>
               free_bytes s + meta m_left + meta m_right \<noteq> HEAP_SIZE s \<longrightarrow>
            bd_init base endp m = Inl (Panic ''bd_init: free mem''))"
proof (intro conjI impI allI)
  assume ok: "bd_init base endp m = Inr s"
  then obtain m_left m_right where
    mk: "bd_init_mark base endp m = Inr (s, m_left, m_right)" and
    chk: "to_int (free_m m_left + free_m m_right) = BLK_SIZE (MAXSIZE s) - meta m_left - meta m_right"
    by (auto simp: bd_init_def Let_def split: sum.splits if_splits)
  from bd_init_mark_free_bytes [OF mk assms] chk
  have "free_bytes s + meta m_left + meta m_right = HEAP_SIZE s"
    by (simp add: HEAP_SIZE_def)
  with mk show "\<exists>m_left m_right. bd_init_mark base endp m = Inr (s, m_left, m_right) \<and>
               free_bytes s + meta m_left + meta m_right = HEAP_SIZE s"
    by blast
next
  fix m_left m_right
  assume a: "bd_init_mark base endp m = Inr (s, m_left, m_right) \<and>
               free_bytes s + meta m_left + meta m_right \<noteq> HEAP_SIZE s"
  then have mk: "bd_init_mark base endp m = Inr (s, m_left, m_right)" by simp
  from bd_init_mark_free_bytes [OF mk assms] a
  have "to_int (free_m m_left + free_m m_right) \<noteq> BLK_SIZE (MAXSIZE s) - meta m_left - meta m_right"
    by (simp add: HEAP_SIZE_def)
  with mk show "bd_init base endp m = Inl (Panic ''bd_init: free mem'')"
    by (simp add: bd_init_def Let_def)
qed

theorem bd_init_accounting_witness:
  "bd_init 0 1008 (\<lambda>_. 0) = Inr heap_1008 \<and> HEAP_SIZE heap_1008 = 1024 \<and>
   free_bytes heap_1008 = 752 \<and>
   (\<exists>m_left m_right. bd_init_mark 0 1008 (\<lambda>_. 0) = Inr (heap_1008, m_left, m_right) \<and>
      meta m_left = 256 \<and> meta m_right = 16 \<and>
      free_bytes heap_1008 + meta m_left + meta m_right = HEAP_SIZE heap_1008)"
proof -
  have h: "HEAP_SIZE heap_1008 = 1024" by code_simp
  then have le: "HEAP_SIZE heap_1008 \<le> 2 ^ 31" by simp
  have metas: "case bd_init_mark 0 1008 (\<lambda>_. 0) of
                 Inr (s, m_left, m_right) \<Rightarrow> meta m_left = 256 \<and> meta m_right = 16
               | Inl e \<Rightarrow> False"
    by code_simp
  from bd_init_accounting [OF le, of 0 1008 "\<lambda>_. 0"] bd_init_1008
  obtain m_left m_right where
    mk: "bd_init_mark 0 1008 (\<lambda>_. 0) = Inr (heap_1008, m_left, m_right)" and
    acc: "free_bytes heap_1008 + meta m_left + meta m_right = HEAP_SIZE heap_1008"
    by blast
  from metas mk have m: "meta m_left = 256" "meta m_right = 16" by simp_all
  with acc h have "free_bytes heap_1008 = 752" by simp
  with bd_init_1008 h mk m acc show ?thesis by blast
qed

end
